theory Spec2Isabelle
  imports Main "HOL-Library.Multiset"
begin

section \<open>The game orchestrator of \<open>game.py\<close>\<close>

text \<open>
  The class \<open>Game\<close> owns a shuffled deck (\<open>available_cards\<close>), a cursor into it
  (\<open>moves_played\<close>) and the roster (\<open>players\<close>). Python integers are unbounded, so
  the cursor is an \<open>int\<close>; the roster holds references to player objects, so it is a
  list of object identities and the objects themselves live in a heap.
\<close>

subsection \<open>Python values\<close>

datatype error = ValueError | IndexError | AssertionError

type_synonym ref = nat

text \<open>
  The subscript \<open>xs[i]\<close>. Positions \<open>0 \<dots> len - 1\<close> are read directly, positions
  \<open>-len \<dots> -1\<close> are read from the back, and every other position raises \<open>IndexError\<close>.
\<close>

definition py_index :: "'a list \<Rightarrow> int \<Rightarrow> error + 'a" where
  "py_index xs i =
     (if 0 \<le> i \<and> i < int (length xs) then Inr (xs ! nat i)
      else if i < 0 \<and> - int (length xs) \<le> i then Inr (xs ! nat (int (length xs) + i))
      else Inl IndexError)"

text \<open>\<open>xs[:n]\<close>: a negative bound counts from the end, and the slice never raises.\<close>

definition py_prefix :: "'a list \<Rightarrow> int \<Rightarrow> 'a list" where
  "py_prefix xs n = (if n < 0 then take (nat (int (length xs) + n)) xs else take (nat n) xs)"

subsection \<open>The state\<close>

record game =
  available_cards :: "int list"
  moves_played :: int
  players :: "ref list"

text \<open>
  What lies outside the \<open>Game\<close> object: the player objects (\<open>heap\<close>) and what
  the game did to the outside, in the order it did it (\<open>events\<close>): a \<open>print\<close> of
  the game, or a call of \<open>player.move\<close> on a player object with a card.
\<close>

record snapshot =
  snap_moves :: "int list"
  snap_current :: "int option"
  snap_number :: int
  snap_players :: "ref list"

datatype event = Printed snapshot | Moved ref int

record 'p env =
  heap :: "ref \<Rightarrow> 'p"
  events :: "event list"

text \<open>
  The collaborators \<open>player.py\<close> and \<open>eval.py\<close> are not part of the orchestrator: the
  methods \<open>Player.move\<close>, \<open>Player.get_board\<close> and the function \<open>evaluate\<close> are
  parameters. \<open>Board.SIZE\<close> is the parameter \<open>sz\<close> of the functions below.
\<close>

record ('p, 'b, 's) collab =
  move :: "int \<Rightarrow> 'p \<Rightarrow> 'p"
  get_board :: "'p \<Rightarrow> 'b"
  evaluate :: "'b \<Rightarrow> 's"

subsection \<open>Construction\<close>

text \<open>\<open>[i for i in range(1, 14) for _ in range(4)]\<close>\<close>

definition fresh_deck :: "int list" where
  "fresh_deck = concat (map (\<lambda>i. replicate 4 i) [1..13])"

text \<open>
  \<open>random.shuffle\<close> of the standard library: for \<open>i\<close> from \<open>len(x) - 1\<close> down to
  \<open>1\<close>, draw \<open>j\<close> below \<open>i + 1\<close> and exchange \<open>x[i]\<close> and \<open>x[j]\<close>. The random
  source is the parameter \<open>rb\<close>: \<open>rb i mod (i + 1)\<close> is the index drawn at position
  \<open>i\<close>.
\<close>

definition swap :: "nat \<Rightarrow> nat \<Rightarrow> 'a list \<Rightarrow> 'a list" where
  "swap i j xs = xs[i := xs ! j, j := xs ! i]"

fun shuffle_from :: "(nat \<Rightarrow> nat) \<Rightarrow> nat \<Rightarrow> 'a list \<Rightarrow> 'a list" where
  "shuffle_from rb 0 xs = xs"
| "shuffle_from rb (Suc k) xs = shuffle_from rb k (swap (Suc k) (rb (Suc k) mod (Suc k + 1)) xs)"

definition shuffle :: "(nat \<Rightarrow> nat) \<Rightarrow> 'a list \<Rightarrow> 'a list" where
  "shuffle rb xs = shuffle_from rb (length xs - 1) xs"

definition Game_init :: "(nat \<Rightarrow> nat) \<Rightarrow> game" where
  "Game_init rb = \<lparr>available_cards = shuffle rb fresh_deck, moves_played = 0, players = []\<rparr>"

subsection \<open>The operations\<close>

definition finished :: "int \<Rightarrow> game \<Rightarrow> bool" where
  "finished sz g \<longleftrightarrow>
     moves_played g \<ge> sz ^ 2 \<or> moves_played g \<ge> int (length (available_cards g))"

definition take_next_card :: "int \<Rightarrow> game \<Rightarrow> (error + int option) \<times> game" where
  "take_next_card sz g =
     (if finished sz g then (Inr None, g)
      else case py_index (available_cards g) (moves_played g) of
             Inl e \<Rightarrow> (Inl e, g)
           | Inr crd \<Rightarrow> (Inr (Some crd), g\<lparr>moves_played := moves_played g + 1\<rparr>))"

definition add_player :: "ref \<Rightarrow> game \<Rightarrow> (error + int) \<times> game" where
  "add_player player g =
     (if moves_played g \<noteq> 0 then (Inl ValueError, g)
      else let g' = g\<lparr>players := players g @ [player]\<rparr>
           in (Inr (int (length (players g')) - 1), g'))"

text \<open>
  \<open>__str__\<close> puts four things into its text, in this order: the slice
  \<open>available_cards[:moves_played]\<close>, the current card (\<open>None\<close> when finished, else
  \<open>available_cards[moves_played]\<close>), the move number and the roster.
\<close>

definition game_str :: "int \<Rightarrow> game \<Rightarrow> error + snapshot" where
  "game_str sz g =
     (let r = py_prefix (available_cards g) (moves_played g)
      in if finished sz g
         then Inr \<lparr>snap_moves = r, snap_current = None,
                   snap_number = moves_played g, snap_players = players g\<rparr>
         else case py_index (available_cards g) (moves_played g) of
                Inl e \<Rightarrow> Inl e
              | Inr crd \<Rightarrow> Inr \<lparr>snap_moves = r, snap_current = Some crd,
                                  snap_number = moves_played g, snap_players = players g\<rparr>)"

text \<open>\<open>for player in self.players: player.move(next_card)\<close>\<close>

fun broadcast :: "(int \<Rightarrow> 'p \<Rightarrow> 'p) \<Rightarrow> int \<Rightarrow> ref list \<Rightarrow> 'p env \<Rightarrow> 'p env" where
  "broadcast mv crd [] e = e"
| "broadcast mv crd (r # rs) e =
     broadcast mv crd rs
       (e\<lparr>heap := (heap e)(r := mv crd (heap e r)), events := events e @ [Moved r crd]\<rparr>)"

text \<open>\<open>if verbose: print(self)\<close>\<close>

definition trace :: "int \<Rightarrow> bool \<Rightarrow> game \<Rightarrow> 'p env \<Rightarrow> error + 'p env" where
  "trace sz verbose g e =
     (if verbose
      then case game_str sz g of
             Inl err \<Rightarrow> Inl err
           | Inr s \<Rightarrow> Inr (e\<lparr>events := events e @ [Printed s]\<rparr>)
      else Inr e)"

text \<open>The \<open>while\<close> loop of \<open>start\<close>; an exception leaves the loop with the state as it is.\<close>

function start_loop ::
  "int \<Rightarrow> (int \<Rightarrow> 'p \<Rightarrow> 'p) \<Rightarrow> bool \<Rightarrow> game \<Rightarrow> 'p env \<Rightarrow> error option \<times> game \<times> 'p env" where
  "start_loop sz mv verbose g e =
     (if finished sz g then (None, g, e)
      else case take_next_card sz g of
             (Inl err, g') \<Rightarrow> (Some err, g', e)
           | (Inr None, g') \<Rightarrow> (Some AssertionError, g', e)
           | (Inr (Some next_card), g') \<Rightarrow>
               (case trace sz verbose g' e of
                  Inl err \<Rightarrow> (Some err, g', e)
                | Inr e' \<Rightarrow> start_loop sz mv verbose g' (broadcast mv next_card (players g') e')))"
  by pat_completeness auto
termination
proof (relation "measure (\<lambda>(sz, mv, verbose, g, e).
                   nat (int (length (available_cards g)) - moves_played g))")
  show "wf (measure (\<lambda>(sz, mv, verbose, g, e).
              nat (int (length (available_cards g)) - moves_played (g::game))))"
    by simp
next
  fix sz :: int and mv :: "int \<Rightarrow> 'p \<Rightarrow> 'p" and verbose :: bool and g :: game
    and e :: "'p env" and x g' r c e'
  assume nf: "\<not> finished sz g" and t: "(x, g') = take_next_card sz g"
    and x: "x = Inr r" and r: "r = Some c"
  from nf have lt: "moves_played g < int (length (available_cards g))"
    by (simp add: finished_def)
  from t x r nf have "g' = g\<lparr>moves_played := moves_played g + 1\<rparr>"
    by (auto simp: take_next_card_def split: sum.splits)
  with lt show "((sz, mv, verbose, g', broadcast mv c (players g') e'), (sz, mv, verbose, g, e))
        \<in> measure (\<lambda>(sz, mv, verbose, g, e).
              nat (int (length (available_cards g)) - moves_played g))"
    by simp
qed

definition start ::
  "int \<Rightarrow> ('p, 'b, 's) collab \<Rightarrow> bool \<Rightarrow> game \<Rightarrow> 'p env \<Rightarrow> (error + 's list) \<times> game \<times> 'p env" where
  "start sz P verbose g e =
     (case start_loop sz (move P) verbose g e of
        (Some err, g', e') \<Rightarrow> (Inl err, g', e')
      | (None, g', e') \<Rightarrow>
          (Inr (map (\<lambda>player. evaluate P (get_board P (heap e' player))) (players g')), g', e'))"

subsection \<open>Sequences of calls\<close>

text \<open>\<open>n\<close> calls of \<open>take_next_card\<close>, one after the other.\<close>

primrec draws :: "int \<Rightarrow> nat \<Rightarrow> game \<Rightarrow> game" where
  "draws sz 0 g = g"
| "draws sz (Suc n) g = draws sz n (snd (take_next_card sz g))"

text \<open>Registering the players of a list one after the other; the results are collected.\<close>

fun add_players :: "ref list \<Rightarrow> game \<Rightarrow> (error + int) list \<times> game" where
  "add_players [] g = ([], g)"
| "add_players (p # ps) g =
     (case add_player p g of
        (r, g') \<Rightarrow> (case add_players ps g' of (rs, g'') \<Rightarrow> (r # rs, g'')))"

text \<open>
  A caller may use the five methods of the object in any order. A call that raises leaves
  the state as it is at the \<open>raise\<close>, and the caller goes on.
\<close>

datatype op = Take_next_card | Add_player ref | Finished | Start bool | Str

definition raised :: "error + 'a \<Rightarrow> error option" where
  "raised r = (case r of Inl err \<Rightarrow> Some err | Inr _ \<Rightarrow> None)"

fun exec ::
  "int \<Rightarrow> ('p, 'b, 's) collab \<Rightarrow> op \<Rightarrow> game \<times> 'p env \<Rightarrow> error option \<times> game \<times> 'p env" where
  "exec sz P Take_next_card (g, e) = (case take_next_card sz g of (r, g') \<Rightarrow> (raised r, g', e))"
| "exec sz P (Add_player p) (g, e) = (case add_player p g of (r, g') \<Rightarrow> (raised r, g', e))"
| "exec sz P Finished (g, e) = (None, g, e)"
| "exec sz P (Start verbose) (g, e) =
     (case start sz P verbose g e of (r, g', e') \<Rightarrow> (raised r, g', e'))"
| "exec sz P Str (g, e) = (raised (game_str sz g), g, e)"

fun run_ops ::
  "int \<Rightarrow> ('p, 'b, 's) collab \<Rightarrow> op list \<Rightarrow> game \<times> 'p env \<Rightarrow> error option list \<times> game \<times> 'p env" where
  "run_ops sz P [] s = ([], s)"
| "run_ops sz P (x # xs) s =
     (case exec sz P x s of
        (r, s') \<Rightarrow> (case run_ops sz P xs s' of (rs, s'') \<Rightarrow> (r # rs, s'')))"

subsection \<open>Notions used in the statements\<close>

text \<open>The number of cards a game hands out: the board's capacity or the deck's length.\<close>

definition threshold :: "int \<Rightarrow> game \<Rightarrow> int" where
  "threshold sz g = min (sz ^ 2) (int (length (available_cards g)))"

text \<open>The counter is a position of the deck, or the position just behind it.\<close>

definition counter_inv :: "game \<Rightarrow> bool" where
  "counter_inv g \<longleftrightarrow> 0 \<le> moves_played g \<and> moves_played g \<le> int (length (available_cards g))"

text \<open>
  What the round that draws the card at position \<open>k\<close> does to the outside: with tracing,
  one print, made after the draw; then one call of \<open>move\<close> per roster entry.
\<close>

definition round_events :: "int \<Rightarrow> bool \<Rightarrow> game \<Rightarrow> nat \<Rightarrow> event list" where
  "round_events sz verbose g k =
     (if verbose
      then [Printed \<lparr>snap_moves = take (Suc k) (available_cards g),
                     snap_current = (if threshold sz g \<le> int (Suc k) then None
                                     else Some (available_cards g ! Suc k)),
                     snap_number = int (Suc k),
                     snap_players = players g\<rparr>]
      else [])
     @ map (\<lambda>r. Moved r (available_cards g ! k)) (players g)"

subsection \<open>A sample game\<close>

text \<open>
  Concrete inputs on which the statements below are evaluated: a source of random numbers,
  players that keep the cards they are given in a list and are scored by the sum of their
  cards, and a world in which every player starts with no card and nothing has happened.
\<close>

definition sample_collab :: "(int list, int list, int) collab" where
  "sample_collab = \<lparr>move = (\<lambda>c b. b @ [c]), get_board = (\<lambda>b. b), evaluate = sum_list\<rparr>"

definition sample_source :: "nat \<Rightarrow> nat" where
  "sample_source i = (i * i) div 7"

definition sample_env :: "int list env" where
  "sample_env = \<lparr>heap = (\<lambda>r. []), events = []\<rparr>"

section \<open>Properties of the operations\<close>

subsection \<open>Single calls\<close>

lemma finished_threshold: "finished sz g \<longleftrightarrow> threshold sz g \<le> moves_played g"
  by (auto simp: finished_def threshold_def)

lemma threshold_nonneg: "0 \<le> threshold sz g"
  by (simp add: threshold_def)

lemma take_next_card_finished: "finished sz g \<Longrightarrow> take_next_card sz g = (Inr None, g)"
  by (simp add: take_next_card_def)

lemma take_next_card_draw:
  assumes "\<not> finished sz g" and "0 \<le> moves_played g"
  shows "take_next_card sz g =
           (Inr (Some (available_cards g ! nat (moves_played g))),
            g\<lparr>moves_played := moves_played g + 1\<rparr>)"
  using assms by (simp add: take_next_card_def finished_def py_index_def)

lemma take_next_card_cases:
  "snd (take_next_card sz g) = g \<or>
   snd (take_next_card sz g) = g\<lparr>moves_played := moves_played g + 1\<rparr>"
  by (simp add: take_next_card_def split: sum.splits)

lemma take_next_card_frame:
  "available_cards (snd (take_next_card sz g)) = available_cards g \<and>
   players (snd (take_next_card sz g)) = players g \<and>
   moves_played g \<le> moves_played (snd (take_next_card sz g))"
  using take_next_card_cases [of sz g] by auto

lemma take_next_card_inv: "counter_inv g \<Longrightarrow> counter_inv (snd (take_next_card sz g))"
  by (auto simp: take_next_card_def counter_inv_def finished_def split: sum.splits)

lemma threshold_update [simp]: "threshold sz (g\<lparr>moves_played := m\<rparr>) = threshold sz g"
  by (simp add: threshold_def)

lemma draws_finished: "finished sz g \<Longrightarrow> draws sz n g = g"
  by (induction n) (simp_all add: take_next_card_finished)

lemma draws_counter:
  "0 \<le> moves_played g \<Longrightarrow>
   draws sz n g = g\<lparr>moves_played := (if threshold sz g \<le> moves_played g then moves_played g
                     else min (moves_played g + int n) (threshold sz g))\<rparr>"
proof (induction n arbitrary: g)
  case 0
  then show ?case by simp
next
  case (Suc n)
  show ?case
  proof (cases "finished sz g")
    case True
    then show ?thesis
      using draws_finished [of sz g "Suc n"] by (simp add: finished_threshold)
  next
    case False
    let ?g = "g\<lparr>moves_played := moves_played g + 1\<rparr>"
    have "draws sz (Suc n) g = draws sz n ?g"
      using False Suc.prems by (simp add: take_next_card_draw)
    also have "\<dots> = ?g\<lparr>moves_played := (if threshold sz ?g \<le> moves_played ?g then moves_played ?g
                     else min (moves_played ?g + int n) (threshold sz ?g))\<rparr>"
      using Suc.prems by (intro Suc.IH) simp
    finally show ?thesis
      using False by (auto simp: finished_threshold min_def)
  qed
qed

lemma draws_add: "draws sz (n + k) g = draws sz k (draws sz n g)"
  by (induction n arbitrary: g) simp_all

lemma broadcast_events: "events (broadcast mv c ps e) = events e @ map (\<lambda>r. Moved r c) ps"
  by (induction ps arbitrary: e) simp_all

lemma broadcast_nil_players: "broadcast mv c [] e = e"
  by simp

lemma game_str_ok:
  assumes "0 \<le> moves_played g"
  shows "game_str sz g =
           Inr \<lparr>snap_moves = take (nat (moves_played g)) (available_cards g),
                snap_current = (if threshold sz g \<le> moves_played g then None
                                else Some (available_cards g ! nat (moves_played g))),
                snap_number = moves_played g,
                snap_players = players g\<rparr>"
  using assms
  by (auto simp: game_str_def py_prefix_def py_index_def finished_threshold Let_def)
     (auto simp: threshold_def)

lemma round_events_update [simp]:
  "round_events sz verbose (g\<lparr>moves_played := m\<rparr>) = round_events sz verbose g"
  by (rule ext) (simp add: round_events_def)

lemma start_loop_finished: "finished sz g \<Longrightarrow> start_loop sz mv verbose g e = (None, g, e)"
  by (subst start_loop.simps) simp

lemma start_loop_step:
  assumes nf: "\<not> finished sz g" and m: "0 \<le> moves_played g"
  shows "\<exists>e1. trace sz verbose (g\<lparr>moves_played := moves_played g + 1\<rparr>) e = Inr e1 \<and>
           heap e1 = heap e \<and>
           start_loop sz mv verbose g e =
             start_loop sz mv verbose (g\<lparr>moves_played := moves_played g + 1\<rparr>)
               (broadcast mv (available_cards g ! nat (moves_played g)) (players g) e1) \<and>
           events (broadcast mv (available_cards g ! nat (moves_played g)) (players g) e1) =
             events e @ round_events sz verbose g (nat (moves_played g))"
proof -
  let ?g = "g\<lparr>moves_played := moves_played g + 1\<rparr>"
  let ?c = "available_cards g ! nat (moves_played g)"
  have m': "0 \<le> moves_played ?g" using m by simp
  have nat_eq: "nat (moves_played g + 1) = Suc (nat (moves_played g))"
    using m by simp
  have int_eq: "int (Suc (nat (moves_played g))) = moves_played g + 1"
    using m by simp
  define e1 where "e1 = e\<lparr>events := events e @
       (if verbose then [Printed \<lparr>snap_moves = take (Suc (nat (moves_played g))) (available_cards g),
                     snap_current = (if threshold sz g \<le> moves_played g + 1 then None
                                     else Some (available_cards g ! Suc (nat (moves_played g)))),
                     snap_number = moves_played g + 1,
                     snap_players = players g\<rparr>] else [])\<rparr>"
  have e1: "trace sz verbose ?g e = Inr e1"
    using m game_str_ok [OF m', of sz] by (simp add: trace_def nat_eq e1_def)
  have h1: "heap e1 = heap e" by (simp add: e1_def)
  have ev1: "events e1 = events e @
       (if verbose then [Printed \<lparr>snap_moves = take (Suc (nat (moves_played g))) (available_cards g),
                     snap_current = (if threshold sz g \<le> moves_played g + 1 then None
                                     else Some (available_cards g ! Suc (nat (moves_played g)))),
                     snap_number = moves_played g + 1,
                     snap_players = players g\<rparr>] else [])"
    by (simp add: e1_def)
  have "start_loop sz mv verbose g e = start_loop sz mv verbose ?g (broadcast mv ?c (players g) e1)"
    using nf m e1 by (subst start_loop.simps) (simp add: take_next_card_draw)
  moreover have "events (broadcast mv ?c (players g) e1) =
      events e @ round_events sz verbose g (nat (moves_played g))"
    using m by (simp add: broadcast_events ev1 round_events_def)
  ultimately show ?thesis using e1 h1 by blast
qed

lemma start_loop_ok:
  assumes "0 \<le> moves_played g"
  shows "\<exists>e'. start_loop sz mv verbose g e =
                 (None, g\<lparr>moves_played := max (moves_played g) (threshold sz g)\<rparr>, e') \<and>
               events e' = events e @
                 concat (map (round_events sz verbose g)
                   [nat (moves_played g) ..< nat (threshold sz g)])"
  using assms
proof (induction "nat (threshold sz g - moves_played g)" arbitrary: g e)
  case 0
  then have fin: "finished sz g" by (simp add: finished_threshold)
  then have "threshold sz g \<le> moves_played g" by (simp add: finished_threshold)
  then show ?case
    using fin by (simp add: start_loop_finished max_def)
next
  case (Suc d)
  then have nf: "\<not> finished sz g" by (simp add: finished_threshold)
  then have lt: "moves_played g < threshold sz g" by (simp add: finished_threshold)
  let ?g = "g\<lparr>moves_played := moves_played g + 1\<rparr>"
  let ?c = "available_cards g ! nat (moves_played g)"
  obtain e1 where
    step: "start_loop sz mv verbose g e = start_loop sz mv verbose ?g (broadcast mv ?c (players g) e1)"
    and ev: "events (broadcast mv ?c (players g) e1) =
             events e @ round_events sz verbose g (nat (moves_played g))"
    using start_loop_step [OF nf Suc.prems] by blast
  have d: "d = nat (threshold sz ?g - moves_played ?g)"
    using Suc.hyps(2) by simp
  have m': "0 \<le> moves_played ?g" using Suc.prems by simp
  obtain e' where
    r: "start_loop sz mv verbose ?g (broadcast mv ?c (players g) e1) =
          (None, ?g\<lparr>moves_played := max (moves_played ?g) (threshold sz ?g)\<rparr>, e')"
    and ev': "events e' = events (broadcast mv ?c (players g) e1) @
          concat (map (round_events sz verbose ?g) [nat (moves_played ?g) ..< nat (threshold sz ?g)])"
    using Suc.hyps(1) [OF d m'] by blast
  have upt: "[nat (moves_played g) ..< nat (threshold sz g)] =
      nat (moves_played g) # [nat (moves_played g + 1) ..< nat (threshold sz g)]"
    using lt Suc.prems by (simp add: upt_conv_Cons nat_add_distrib)
  have "start_loop sz mv verbose g e =
          (None, g\<lparr>moves_played := max (moves_played g) (threshold sz g)\<rparr>, e')"
    using step r lt by (simp add: max_def)
  moreover have "events e' = events e @
      concat (map (round_events sz verbose g) [nat (moves_played g) ..< nat (threshold sz g)])"
    using ev ev' upt by simp
  ultimately show ?case by blast
qed

subsection \<open>What every call leaves alone\<close>

lemma start_loop_frame:
  "available_cards (fst (snd (start_loop sz mv verbose g e))) = available_cards g \<and>
   players (fst (snd (start_loop sz mv verbose g e))) = players g \<and>
   moves_played g \<le> moves_played (fst (snd (start_loop sz mv verbose g e)))"
proof (induction sz mv verbose g e rule: start_loop.induct)
  case (1 sz mv verbose g e)
  show ?case
  proof (cases "finished sz g")
    case True
    then show ?thesis by (simp add: start_loop_finished)
  next
    case nf: False
    obtain x g' where t: "take_next_card sz g = (x, g')"
      by (cases "take_next_card sz g")
    have fr: "available_cards g' = available_cards g" "players g' = players g"
      "moves_played g \<le> moves_played g'"
      using take_next_card_frame [of sz g] t by simp_all
    show ?thesis
    proof (cases x)
      case (Inl err)
      have "start_loop sz mv verbose g e = (Some err, g', e)"
        by (subst start_loop.simps) (simp add: nf t Inl)
      then show ?thesis using fr by simp
    next
      case (Inr r)
      show ?thesis
      proof (cases r)
        case None
        have "start_loop sz mv verbose g e = (Some AssertionError, g', e)"
          by (subst start_loop.simps) (simp add: nf t Inr None)
        then show ?thesis using fr by simp
      next
        case (Some c)
        show ?thesis
        proof (cases "trace sz verbose g' e")
          case (Inl err)
          have "start_loop sz mv verbose g e = (Some err, g', e)"
            by (subst start_loop.simps) (simp add: nf t Inr Some Inl)
          then show ?thesis using fr by simp
        next
          case tr: (Inr e')
          have eq: "start_loop sz mv verbose g e =
                  start_loop sz mv verbose g' (broadcast mv c (players g') e')"
            by (subst start_loop.simps) (simp add: nf t Inr Some tr)
          have "available_cards (fst (snd (start_loop sz mv verbose g' (broadcast mv c (players g') e')))) = available_cards g' \<and>
   players (fst (snd (start_loop sz mv verbose g' (broadcast mv c (players g') e')))) = players g' \<and>
   moves_played g' \<le> moves_played (fst (snd (start_loop sz mv verbose g' (broadcast mv c (players g') e'))))"
            using "1.IH" [OF nf t [symmetric] Inr Some tr] .
          then show ?thesis using fr eq by simp
        qed
      qed
    qed
  qed
qed

lemma start_frame:
  "available_cards (fst (snd (start sz P verbose g e))) = available_cards g \<and>
   players (fst (snd (start sz P verbose g e))) = players g \<and>
   moves_played g \<le> moves_played (fst (snd (start sz P verbose g e)))"
  using start_loop_frame [of sz "move P" verbose g e]
  by (auto simp: start_def split: prod.splits option.splits)

lemma start_ok:
  assumes "0 \<le> moves_played g"
  shows "\<exists>e'. start sz P verbose g e =
           (Inr (map (\<lambda>player. evaluate P (get_board P (heap e' player))) (players g)),
            g\<lparr>moves_played := max (moves_played g) (threshold sz g)\<rparr>, e') \<and>
           events e' = events e @
             concat (map (round_events sz verbose g) [nat (moves_played g) ..< nat (threshold sz g)])"
proof -
  obtain e' where "start_loop sz (move P) verbose g e =
                 (None, g\<lparr>moves_played := max (moves_played g) (threshold sz g)\<rparr>, e')"
    and "events e' = events e @
                 concat (map (round_events sz verbose g)
                   [nat (moves_played g) ..< nat (threshold sz g)])"
    using start_loop_ok [OF assms] by blast
  then show ?thesis by (simp add: start_def)
qed

lemma start_finished:
  "finished sz g \<Longrightarrow> start sz P verbose g e =
     (Inr (map (\<lambda>player. evaluate P (get_board P (heap e player))) (players g)), g, e)"
  by (simp add: start_def start_loop_finished)

lemma add_player_frame:
  "available_cards (snd (add_player p g)) = available_cards g \<and>
   moves_played (snd (add_player p g)) = moves_played g"
  by (simp add: add_player_def Let_def)

lemma exec_frame:
  "available_cards (fst (snd (exec sz P x (g, e)))) = available_cards g \<and>
   moves_played g \<le> moves_played (fst (snd (exec sz P x (g, e))))"
proof (cases x)
  case Take_next_card
  then show ?thesis
    using take_next_card_frame [of sz g] by (cases "take_next_card sz g") simp
next
  case (Add_player p)
  then show ?thesis
    using add_player_frame [of p g] by (cases "add_player p g") simp
next
  case Finished
  then show ?thesis by simp
next
  case (Start verbose)
  then show ?thesis
    using start_frame [of sz P verbose g e] by (cases "start sz P verbose g e") simp
next
  case Str
  then show ?thesis by simp
qed

lemma run_ops_frame:
  "available_cards (fst (snd (run_ops sz P xs (g, e)))) = available_cards g \<and>
   moves_played g \<le> moves_played (fst (snd (run_ops sz P xs (g, e))))"
proof (induction xs arbitrary: g e)
  case Nil
  then show ?case by simp
next
  case (Cons x xs)
  obtain r g' e' where ex: "exec sz P x (g, e) = (r, g', e')"
    by (cases "exec sz P x (g, e)")
  have "available_cards g' = available_cards g \<and> moves_played g \<le> moves_played g'"
    using exec_frame [of sz P x g e] ex by simp
  moreover have "available_cards (fst (snd (run_ops sz P xs (g', e')))) = available_cards g' \<and>
   moves_played g' \<le> moves_played (fst (snd (run_ops sz P xs (g', e'))))"
    by (rule Cons.IH)
  ultimately show ?case
    using ex by (cases "run_ops sz P xs (g', e')") simp
qed

lemma exec_inv:
  assumes "counter_inv g"
  shows "counter_inv (fst (snd (exec sz P x (g, e)))) \<and>
         fst (exec sz P x (g, e)) \<in> {None, Some ValueError} \<and>
         (fst (exec sz P x (g, e)) = Some ValueError \<longrightarrow>
            (\<exists>p. x = Add_player p) \<and> moves_played g \<noteq> 0)"
proof (cases x)
  case Take_next_card
  then show ?thesis
    using assms take_next_card_inv [OF assms, of sz]
    by (cases "finished sz g")
       (simp_all add: take_next_card_finished take_next_card_draw counter_inv_def raised_def)
next
  case (Add_player p)
  then show ?thesis
    using assms by (simp add: add_player_def counter_inv_def raised_def Let_def)
next
  case Finished
  then show ?thesis using assms by simp
next
  case (Start verbose)
  have m: "0 \<le> moves_played g" using assms by (simp add: counter_inv_def)
  obtain e' where "start sz P verbose g e =
           (Inr (map (\<lambda>player. evaluate P (get_board P (heap e' player))) (players g)),
            g\<lparr>moves_played := max (moves_played g) (threshold sz g)\<rparr>, e')"
    using start_ok [OF m] by blast
  then show ?thesis
    using Start assms by (auto simp: raised_def counter_inv_def threshold_def)
next
  case Str
  have m: "0 \<le> moves_played g" using assms by (simp add: counter_inv_def)
  show ?thesis
    using Str assms game_str_ok [OF m, of sz] by (simp add: raised_def)
qed

lemma run_ops_inv:
  assumes "counter_inv g"
  shows "counter_inv (fst (snd (run_ops sz P xs (g, e)))) \<and>
         set (fst (run_ops sz P xs (g, e))) \<subseteq> {None, Some ValueError}"
  using assms
proof (induction xs arbitrary: g e)
  case Nil
  then show ?case by simp
next
  case (Cons x xs)
  obtain r g' e' where ex: "exec sz P x (g, e) = (r, g', e')"
    by (cases "exec sz P x (g, e)")
  have 1: "counter_inv g'" "r \<in> {None, Some ValueError}"
    using exec_inv [OF Cons.prems, of sz P x e] ex by simp_all
  have "counter_inv (fst (snd (run_ops sz P xs (g', e')))) \<and>
         set (fst (run_ops sz P xs (g', e'))) \<subseteq> {None, Some ValueError}"
    using 1 by (intro Cons.IH)
  then show ?case
    using ex 1 by (cases "run_ops sz P xs (g', e')") auto
qed

subsection \<open>Registration\<close>

lemma add_player_ok:
  "moves_played g = 0 \<Longrightarrow>
   add_player p g = (Inr (int (length (players g))), g\<lparr>players := players g @ [p]\<rparr>)"
  by (simp add: add_player_def Let_def)

lemma add_players_ok:
  "moves_played g = 0 \<Longrightarrow>
   add_players ps g =
     (map (\<lambda>i. Inr (int (length (players g) + i))) [0..<length ps],
      g\<lparr>players := players g @ ps\<rparr>)"
proof (induction ps arbitrary: g)
  case Nil
  then show ?case by simp
next
  case (Cons p ps)
  let ?g = "g\<lparr>players := players g @ [p]\<rparr>"
  have m: "moves_played ?g = 0" using Cons.prems by simp
  show ?case
    using Cons.prems Cons.IH [OF m]
    by (simp add: add_player_ok map_upt_Suc del: upt_Suc)
qed

subsection \<open>A whole game\<close>

lemma Game_init_simps:
  "moves_played (Game_init rb) = 0" "players (Game_init rb) = []"
  by (simp_all add: Game_init_def)

lemma start_returns:
  assumes "start sz P verbose g e = (Inr scores, g', e')"
  shows "players g' = players g \<and>
         scores = map (\<lambda>player. evaluate P (get_board P (heap e' player))) (players g)"
proof -
  obtain r g1 e1 where l: "start_loop sz (move P) verbose g e = (r, g1, e1)"
    by (cases "start_loop sz (move P) verbose g e")
  have p: "players g1 = players g"
    using start_loop_frame [of sz "move P" verbose g e] l by simp
  show ?thesis
    using assms l p by (cases r) (auto simp: start_def)
qed

lemma run_ops_errors:
  assumes "counter_inv g"
  shows "list_all2 (\<lambda>x r. r = None \<or> r = Some ValueError \<and> (\<exists>p. x = Add_player p))
           xs (fst (run_ops sz P xs (g, e)))"
  using assms
proof (induction xs arbitrary: g e)
  case Nil
  then show ?case by simp
next
  case (Cons x xs)
  obtain r g' e' where ex: "exec sz P x (g, e) = (r, g', e')"
    by (cases "exec sz P x (g, e)")
  have 1: "counter_inv g'" "r = None \<or> r = Some ValueError \<and> (\<exists>p. x = Add_player p)"
    using exec_inv [OF Cons.prems, of sz P x e] ex by auto
  have "list_all2 (\<lambda>x r. r = None \<or> r = Some ValueError \<and> (\<exists>p. x = Add_player p))
           xs (fst (run_ops sz P xs (g', e')))"
    using 1(1) by (rule Cons.IH)
  then show ?case
    using ex 1(2) by (cases "run_ops sz P xs (g', e')") simp
qed

subsection \<open>The shuffled deck\<close>

lemma length_swap [simp]: "length (swap i j xs) = length xs"
  by (simp add: swap_def)

lemma mset_swap_list: "i < length xs \<Longrightarrow> j < length xs \<Longrightarrow> mset (swap i j xs) = mset xs"
  unfolding swap_def by (rule mset_swap)

lemma shuffle_from_perm:
  "k < length xs \<Longrightarrow>
   mset (shuffle_from rb k xs) = mset xs \<and> length (shuffle_from rb k xs) = length xs"
proof (induction k arbitrary: xs)
  case 0
  then show ?case by simp
next
  case (Suc k)
  have j: "rb (Suc k) mod (Suc k + 1) < length xs"
    using Suc.prems by (metis Suc_eq_plus1 less_Suc_eq_le mod_less_divisor order_le_less_trans zero_less_Suc)
  have "k < length (swap (Suc k) (rb (Suc k) mod (Suc k + 1)) xs)"
    using Suc.prems by simp
  then show ?case
    using Suc.IH [of "swap (Suc k) (rb (Suc k) mod (Suc k + 1)) xs"] Suc.prems j
    by (simp add: mset_swap_list)
qed

lemma shuffle_perm: "mset (shuffle rb xs) = mset xs \<and> length (shuffle rb xs) = length xs"
proof (cases xs)
  case Nil
  then show ?thesis by (simp add: shuffle_def)
next
  case (Cons x ys)
  then have "length xs - 1 < length xs" by simp
  then show ?thesis
    unfolding shuffle_def by (rule shuffle_from_perm)
qed

lemma count_ranks:
  "count (mset (concat (map (\<lambda>i. replicate 4 i) rs))) v = 4 * count_list rs v"
  by (induction rs) (simp_all add: count_mset)

lemma count_fresh_deck:
  "count (mset fresh_deck) v = (if 1 \<le> v \<and> v \<le> 13 then 4 else 0)"
proof -
  have "distinct [1..13::int]" by simp
  then have "count (mset [1..13::int]) v = (if v \<in> set [1..13] then 1 else 0)"
    using distinct_count_atmost_1 [of "[1..13::int]"] by blast
  then have "count_list [1..13::int] v = (if 1 \<le> v \<and> v \<le> 13 then 1 else 0)"
    by (simp add: count_mset)
  moreover have "count (mset fresh_deck) v = 4 * count_list [1..13] v"
    unfolding fresh_deck_def by (rule count_ranks)
  ultimately show ?thesis by simp
qed

lemma length_fresh_deck: "length fresh_deck = 52"
  by code_simp

text \<open>The deck that the constructor makes from the sample source.\<close>

lemma sample_game:
  "Game_init sample_source =
   \<lparr>available_cards =
      [12, 11, 5, 13, 5, 9, 6, 4, 12, 1, 11, 10, 7, 3, 12, 6, 1, 11, 3, 8, 7, 9,
       8, 1, 13, 10, 4, 12, 9, 10, 2, 3, 4, 5, 7, 8, 13, 2, 3, 5, 6, 8, 10, 13,
       2, 4, 6, 7, 9, 11, 1, 2],
    moves_played = 0, players = []\<rparr>"
  by code_simp

section \<open>The claims\<close>

subsection \<open>When the game is finished\<close>

text \<open>
  Claim C1. In every state, \<open>finished\<close> holds exactly if the move counter has reached the
  board's capacity \<open>sz\<^sup>2\<close> or the length of the deck, that is, if it has reached the
  smaller of the two. In a run of draws from a game whose counter is \<open>0\<close>, the counter
  after \<open>n\<close> calls is \<open>n\<close> capped at that minimum, so \<open>finished\<close> holds after \<open>n\<close>
  calls exactly if \<open>n\<close> has reached the minimum; and once it holds after some number of
  calls, it holds after any larger number.
\<close>

theorem finished_iff_counter_reaches_threshold:
  "(finished sz g \<longleftrightarrow>
      sz ^ 2 \<le> moves_played g \<or> int (length (available_cards g)) \<le> moves_played g) \<and>
   (finished sz g \<longleftrightarrow> min (sz ^ 2) (int (length (available_cards g))) \<le> moves_played g) \<and>
   (moves_played g = 0 \<longrightarrow>
      moves_played (draws sz n g) = min (int n) (min (sz ^ 2) (int (length (available_cards g)))) \<and>
      (finished sz (draws sz n g) \<longleftrightarrow>
         min (sz ^ 2) (int (length (available_cards g))) \<le> int n)) \<and>
   (finished sz (draws sz n g) \<longrightarrow> finished sz (draws sz (n + k) g))"
proof (intro conjI impI)
  show "finished sz g \<longleftrightarrow>
      sz ^ 2 \<le> moves_played g \<or> int (length (available_cards g)) \<le> moves_played g"
    by (simp add: finished_def)
  show "finished sz g \<longleftrightarrow> min (sz ^ 2) (int (length (available_cards g))) \<le> moves_played g"
    by (simp add: finished_threshold threshold_def)
next
  assume z: "moves_played g = 0"
  have d: "draws sz n g = g\<lparr>moves_played := min (int n) (threshold sz g)\<rparr>"
    using draws_counter [of g sz n] z threshold_nonneg [of sz g]
    by (cases "threshold sz g = 0") (simp_all add: min_def)
  show "moves_played (draws sz n g) = min (int n) (min (sz ^ 2) (int (length (available_cards g))))"
    by (simp add: d threshold_def)
  show "finished sz (draws sz n g) \<longleftrightarrow> min (sz ^ 2) (int (length (available_cards g))) \<le> int n"
    by (simp add: d finished_threshold) (simp add: threshold_def)
next
  assume "finished sz (draws sz n g)"
  then show "finished sz (draws sz (n + k) g)"
    by (simp add: draws_add draws_finished)
qed

text \<open>The theorem at a deck of six cards and a board of side two.\<close>

theorem finished_iff_counter_reaches_threshold_witness:
  "moves_played \<lparr>available_cards = [7, 2, 11, 5, 9, 3], moves_played = 0, players = [0, 1]\<rparr> = 0 \<and>
   \<not> finished 2 (draws 2 3 \<lparr>available_cards = [7, 2, 11, 5, 9, 3], moves_played = 0, players = [0, 1]\<rparr>) \<and>
   finished 2 (draws 2 4 \<lparr>available_cards = [7, 2, 11, 5, 9, 3], moves_played = 0, players = [0, 1]\<rparr>) \<and>
   finished 2 (draws 2 (4 + 3) \<lparr>available_cards = [7, 2, 11, 5, 9, 3], moves_played = 0, players = [0, 1]\<rparr>) \<and>
   moves_played (draws 2 (4 + 3) \<lparr>available_cards = [7, 2, 11, 5, 9, 3], moves_played = 0, players = [0, 1]\<rparr>) = 4"
  using finished_iff_counter_reaches_threshold
    [of 2 "\<lparr>available_cards = [7, 2, 11, 5, 9, 3], moves_played = 0, players = [0, 1]\<rparr>" 3 0]
    finished_iff_counter_reaches_threshold
    [of 2 "\<lparr>available_cards = [7, 2, 11, 5, 9, 3], moves_played = 0, players = [0, 1]\<rparr>" 4 3]
    finished_iff_counter_reaches_threshold
    [of 2 "\<lparr>available_cards = [7, 2, 11, 5, 9, 3], moves_played = 0, players = [0, 1]\<rparr>" "4 + 3" 0]
  by simp

subsection \<open>Drawing a card\<close>

text \<open>
  Claim C2. In a finished game \<open>take_next_card\<close> returns \<open>None\<close> and leaves the state as
  it is, and so does every further call, however many came before. In a game that is not
  finished (the counter of a game is never negative) it returns the card of the deck at the
  position of the counter and adds one to the counter. No method of the game, and no
  sequence of calls, makes the counter smaller.
\<close>

theorem take_next_card_behaviour:
  "(finished sz g \<longrightarrow>
      take_next_card sz g = (Inr None, g) \<and>
      fst (take_next_card sz (draws sz n g)) = Inr None \<and>
      draws sz n g = g) \<and>
   (\<not> finished sz g \<and> 0 \<le> moves_played g \<longrightarrow>
      take_next_card sz g =
        (Inr (Some (available_cards g ! nat (moves_played g))),
         g\<lparr>moves_played := moves_played g + 1\<rparr>)) \<and>
   moves_played g \<le> moves_played (fst (snd (exec sz P x (g, e)))) \<and>
   moves_played g \<le> moves_played (fst (snd (run_ops sz P xs (g, e))))"
proof (intro conjI impI)
  assume f: "finished sz g"
  show "take_next_card sz g = (Inr None, g)"
    using f by (rule take_next_card_finished)
  show "draws sz n g = g"
    using f by (rule draws_finished)
  then show "fst (take_next_card sz (draws sz n g)) = Inr None"
    using f by (simp add: take_next_card_finished)
next
  assume "\<not> finished sz g \<and> 0 \<le> moves_played g"
  then show "take_next_card sz g =
        (Inr (Some (available_cards g ! nat (moves_played g))),
         g\<lparr>moves_played := moves_played g + 1\<rparr>)"
    by (simp add: take_next_card_draw)
next
  show "moves_played g \<le> moves_played (fst (snd (exec sz P x (g, e))))"
    using exec_frame [of sz P x g e] by simp
  show "moves_played g \<le> moves_played (fst (snd (run_ops sz P xs (g, e))))"
    using run_ops_frame [of sz P xs g e] by simp
qed

text \<open>The theorem at a deck of six cards and a board of side two, after four and two draws.\<close>

theorem take_next_card_behaviour_witness:
  "finished 2 \<lparr>available_cards = [7, 2, 11, 5, 9, 3], moves_played = 4, players = [0, 1]\<rparr> \<and>
   take_next_card 2 \<lparr>available_cards = [7, 2, 11, 5, 9, 3], moves_played = 4, players = [0, 1]\<rparr> =
     (Inr None, \<lparr>available_cards = [7, 2, 11, 5, 9, 3], moves_played = 4, players = [0, 1]\<rparr>) \<and>
   \<not> finished 2 \<lparr>available_cards = [7, 2, 11, 5, 9, 3], moves_played = 2, players = [0, 1]\<rparr> \<and>
   (0::int) \<le> moves_played \<lparr>available_cards = [7, 2, 11, 5, 9, 3], moves_played = 2, players = [0, 1]\<rparr> \<and>
   take_next_card 2 \<lparr>available_cards = [7, 2, 11, 5, 9, 3], moves_played = 2, players = [0, 1]\<rparr> =
     (Inr (Some 11), \<lparr>available_cards = [7, 2, 11, 5, 9, 3], moves_played = 3, players = [0, 1]\<rparr>)"
  using take_next_card_behaviour
      [of 2 "\<lparr>available_cards = [7, 2, 11, 5, 9, 3], moves_played = 4, players = [0, 1]\<rparr>" 0
          sample_collab Finished sample_env "[]"]
    take_next_card_behaviour
      [of 2 "\<lparr>available_cards = [7, 2, 11, 5, 9, 3], moves_played = 2, players = [0, 1]\<rparr>" 0
          sample_collab Finished sample_env "[]"]
  by (simp add: finished_def)

subsection \<open>Registering a player\<close>

text \<open>
  Claim C3. \<open>add_player\<close> raises \<open>ValueError\<close> exactly if the counter is not \<open>0\<close>; it
  raises nothing else, and when it raises the game is as before. With the counter at
  \<open>0\<close> it appends the player and returns the position the player got. Registering a list
  of players one after the other before any draw returns consecutive positions, which in a
  new game are \<open>0, 1, 2, \<dots>\<close>, and leaves the roster in the order of registration.
\<close>

theorem add_player_behaviour:
  "(fst (add_player p g) = Inl ValueError \<longleftrightarrow> moves_played g \<noteq> 0) \<and>
   (\<forall>err. fst (add_player p g) = Inl err \<longrightarrow> err = ValueError \<and> snd (add_player p g) = g) \<and>
   (moves_played g = 0 \<longrightarrow>
      add_player p g = (Inr (int (length (players g))), g\<lparr>players := players g @ [p]\<rparr>)) \<and>
   (moves_played g = 0 \<longrightarrow>
      fst (add_players ps g) = map (\<lambda>i. Inr (int (length (players g) + i))) [0..<length ps] \<and>
      players (snd (add_players ps g)) = players g @ ps) \<and>
   fst (add_players ps (Game_init rb)) = map (\<lambda>i. Inr (int i)) [0..<length ps] \<and>
   players (snd (add_players ps (Game_init rb))) = ps"
proof -
  have z: "moves_played (Game_init rb) = 0" "players (Game_init rb) = []"
    by (simp_all add: Game_init_def)
  show ?thesis
    using add_players_ok [OF z(1), of ps] z(2)
    by (auto simp: add_player_def Let_def add_players_ok)
qed

text \<open>The theorem at a game with one player, before the first draw and after the third.\<close>

theorem add_player_behaviour_witness:
  "moves_played \<lparr>available_cards = [7, 2, 11, 5, 9, 3], moves_played = 0, players = [4]\<rparr> = 0 \<and>
   add_player 8 \<lparr>available_cards = [7, 2, 11, 5, 9, 3], moves_played = 0, players = [4]\<rparr> =
     (Inr 1, \<lparr>available_cards = [7, 2, 11, 5, 9, 3], moves_played = 0, players = [4, 8]\<rparr>) \<and>
   fst (add_players [8, 5] \<lparr>available_cards = [7, 2, 11, 5, 9, 3], moves_played = 0, players = [4]\<rparr>) =
     [Inr 1, Inr 2] \<and>
   fst (add_player 8 \<lparr>available_cards = [7, 2, 11, 5, 9, 3], moves_played = 3, players = [4]\<rparr>) =
     Inl ValueError \<and>
   snd (add_player 8 \<lparr>available_cards = [7, 2, 11, 5, 9, 3], moves_played = 3, players = [4]\<rparr>) =
     \<lparr>available_cards = [7, 2, 11, 5, 9, 3], moves_played = 3, players = [4]\<rparr>"
  using add_player_behaviour
      [of 8 "\<lparr>available_cards = [7, 2, 11, 5, 9, 3], moves_played = 0, players = [4]\<rparr>" "[8, 5]"
          sample_source]
    add_player_behaviour
      [of 8 "\<lparr>available_cards = [7, 2, 11, 5, 9, 3], moves_played = 3, players = [4]\<rparr>" "[]"
          sample_source]
  by (simp add: add_player_def)

subsection \<open>Playing the game\<close>

text \<open>
  Claim C4. Whenever \<open>start\<close> returns scores, the roster is the one it started with, there
  is one score per registered player, and the score at position \<open>i\<close> is \<open>evaluate\<close>
  applied to the board that \<open>get_board\<close> gives for the player registered at position
  \<open>i\<close>. In a game whose counter is not negative \<open>start\<close> does return scores.
\<close>

theorem start_scores_aligned:
  "(\<forall>scores g' e'. start sz P verbose g e = (Inr scores, g', e') \<longrightarrow>
      players g' = players g \<and> length scores = length (players g) \<and>
      (\<forall>i<length (players g).
         scores ! i = evaluate P (get_board P (heap e' (players g ! i))))) \<and>
   (0 \<le> moves_played g \<longrightarrow> (\<exists>scores. fst (start sz P verbose g e) = Inr scores))"
proof (intro conjI allI impI)
  fix scores g' e'
  assume a: "start sz P verbose g e = (Inr scores, g', e')"
  show "players g' = players g"
    using start_returns [OF a] by simp
  show "length scores = length (players g)"
    using start_returns [OF a] by simp
  fix i
  assume "i < length (players g)"
  then show "scores ! i = evaluate P (get_board P (heap e' (players g ! i)))"
    using start_returns [OF a] by simp
next
  assume "0 \<le> moves_played g"
  then show "\<exists>scores. fst (start sz P verbose g e) = Inr scores"
    using start_ok [of g sz P verbose e] by auto
qed

text \<open>
  The theorem at a deck of six cards, a board of side two and two players who keep every
  card: both score \<open>7 + 2 + 11 + 5\<close>.
\<close>

theorem start_scores_aligned_witness:
  "(0::int) \<le> moves_played \<lparr>available_cards = [7, 2, 11, 5, 9, 3], moves_played = 0, players = [0, 1]\<rparr> \<and>
   fst (start 2 sample_collab False
     \<lparr>available_cards = [7, 2, 11, 5, 9, 3], moves_played = 0, players = [0, 1]\<rparr> sample_env) =
   Inr [25, 25] \<and>
   evaluate sample_collab (get_board sample_collab
     (heap (snd (snd (start 2 sample_collab False
        \<lparr>available_cards = [7, 2, 11, 5, 9, 3], moves_played = 0, players = [0, 1]\<rparr> sample_env))) 0)) = 25 \<and>
   evaluate sample_collab (get_board sample_collab
     (heap (snd (snd (start 2 sample_collab False
        \<lparr>available_cards = [7, 2, 11, 5, 9, 3], moves_played = 0, players = [0, 1]\<rparr> sample_env))) 1)) = 25"
proof -
  let ?g = "\<lparr>available_cards = [7, 2, 11, 5, 9, 3], moves_played = 0, players = [0, 1]\<rparr>"
  have r: "fst (start 2 sample_collab False ?g sample_env) = Inr [25, 25]"
    by code_simp
  obtain g' e' where s: "start 2 sample_collab False ?g sample_env = (Inr [25, 25], g', e')"
    using r by (cases "start 2 sample_collab False ?g sample_env") auto
  have a: "\<forall>i<2. [25, 25] ! i = evaluate sample_collab (get_board sample_collab (heap e' ([0, 1] ! i)))"
    using start_scores_aligned [of 2 sample_collab False ?g sample_env] s by simp
  have "[25, 25] ! 0 = evaluate sample_collab (get_board sample_collab (heap e' ([0, 1] ! 0)))"
    using a [rule_format, of 0] by simp
  moreover have "[25, 25] ! 1 = evaluate sample_collab (get_board sample_collab (heap e' ([0, 1] ! 1)))"
    using a [rule_format, of 1] by simp
  ultimately show ?thesis
    using s by simp
qed

text \<open>
  Claim C5 says that each snapshot printed by \<open>start\<close> lists the cards drawn before the
  card of the round, shows the card of the round as the current card, and shows no card
  behind it in the deck. The loop draws first and prints afterwards, and \<open>__str__\<close>
  describes the state it finds, hidden cards included: the card of the round is the last one
  of the cards listed as played, and the card shown as current is the one behind it in the
  deck. In the sample game with one player the first round hands out the card \<open>12\<close>; its
  snapshot lists \<open>12\<close> as played and shows \<open>11\<close>, the second card of the deck, as
  current.
\<close>

theorem start_trace_snapshots_counterexample:
  "take 2 (available_cards (Game_init sample_source)) = [12, 11] \<and>
   take 2 (events (snd (snd (start 5 sample_collab True
            (snd (add_player 0 (Game_init sample_source))) sample_env)))) =
   [Printed \<lparr>snap_moves = [12], snap_current = Some 11, snap_number = 1, snap_players = [0]\<rparr>,
    Moved 0 12]"
  unfolding sample_game by code_simp

text \<open>
  Claim C5 as the code has it. With tracing, a game whose counter is not negative does the
  rounds for the deck positions from the counter up to the smaller of capacity and deck
  length, in this order and nothing else. The round for position \<open>k\<close> prints one snapshot
  and then calls \<open>move\<close> with the card at position \<open>k\<close> on every player of the roster in
  turn. The snapshot lists as played the first \<open>k + 1\<close> cards of the deck, the last of
  which is the card of the round; it shows as current card the card at position \<open>k + 1\<close>,
  or \<open>None\<close> if the game is finished after this draw; its move number is \<open>k + 1\<close>. So
  no snapshot shows a deck position behind the card it shows as current.
\<close>

theorem start_trace_snapshots:
  "(0 \<le> moves_played g \<longrightarrow>
      events (snd (snd (start sz P True g e))) =
        events e @ concat (map (round_events sz True g)
                             [nat (moves_played g) ..< nat (threshold sz g)])) \<and>
   round_events sz True g k =
     Printed \<lparr>snap_moves = take (Suc k) (available_cards g),
              snap_current = (if min (sz ^ 2) (int (length (available_cards g))) \<le> int (Suc k)
                              then None else Some (available_cards g ! Suc k)),
              snap_number = int (Suc k),
              snap_players = players g\<rparr>
     # map (\<lambda>r. Moved r (available_cards g ! k)) (players g)"
proof (intro conjI impI)
  assume m: "0 \<le> moves_played g"
  show "events (snd (snd (start sz P True g e))) =
        events e @ concat (map (round_events sz True g)
                             [nat (moves_played g) ..< nat (threshold sz g)])"
    using start_ok [OF m, of sz P True e] by auto
next
  show "round_events sz True g k =
     Printed \<lparr>snap_moves = take (Suc k) (available_cards g),
              snap_current = (if min (sz ^ 2) (int (length (available_cards g))) \<le> int (Suc k)
                              then None else Some (available_cards g ! Suc k)),
              snap_number = int (Suc k),
              snap_players = players g\<rparr>
     # map (\<lambda>r. Moved r (available_cards g ! k)) (players g)"
    by (simp add: round_events_def threshold_def)
qed

text \<open>The theorem at a deck of six cards and a board of side two, after two draws.\<close>

theorem start_trace_snapshots_witness:
  "(0::int) \<le> moves_played \<lparr>available_cards = [7, 2, 11, 5, 9, 3], moves_played = 2, players = [0, 1]\<rparr> \<and>
   events (snd (snd (start 2 sample_collab True
     \<lparr>available_cards = [7, 2, 11, 5, 9, 3], moves_played = 2, players = [0, 1]\<rparr> sample_env))) =
   [Printed \<lparr>snap_moves = [7, 2, 11], snap_current = Some 5, snap_number = 3, snap_players = [0, 1]\<rparr>,
    Moved 0 11, Moved 1 11,
    Printed \<lparr>snap_moves = [7, 2, 11, 5], snap_current = None, snap_number = 4, snap_players = [0, 1]\<rparr>,
    Moved 0 5, Moved 1 5]"
proof -
  let ?g = "\<lparr>available_cards = [7, 2, 11, 5, 9, 3], moves_played = 2, players = [0, 1]\<rparr>"
  have u: "[nat (moves_played ?g) ..< nat (threshold 2 ?g)] = [2, 3]"
    by (simp add: threshold_def upt_conv_Cons)
  show ?thesis
    using start_trace_snapshots [of ?g 2 sample_collab sample_env 0]
    unfolding u by (simp add: round_events_def threshold_def sample_env_def)
qed

text \<open>
  Claim C8. In a game that is not finished (and whose counter is not negative, as in every
  game) \<open>take_next_card\<close> returns a card, not \<open>None\<close>; so the loop of \<open>start\<close> ends
  without an exception, the assertion included, and \<open>start\<close> returns scores. In a game
  made by the constructor, whatever methods are called in whatever order, the only
  exception is the \<open>ValueError\<close> of \<open>add_player\<close>.
\<close>

theorem start_never_raises:
  "(0 \<le> moves_played g \<and> \<not> finished sz g \<longrightarrow>
      fst (take_next_card sz g) = Inr (Some (available_cards g ! nat (moves_played g)))) \<and>
   (0 \<le> moves_played g \<longrightarrow>
      fst (start_loop sz (move P) verbose g e) = None \<and>
      (\<exists>scores. fst (start sz P verbose g e) = Inr scores)) \<and>
   list_all2 (\<lambda>x r. r = None \<or> r = Some ValueError \<and> (\<exists>p. x = Add_player p))
     xs (fst (run_ops sz P xs (Game_init rb, e)))"
proof (intro conjI impI)
  assume "0 \<le> moves_played g \<and> \<not> finished sz g"
  then show "fst (take_next_card sz g) = Inr (Some (available_cards g ! nat (moves_played g)))"
    by (simp add: take_next_card_draw)
next
  assume m: "0 \<le> moves_played g"
  show "fst (start_loop sz (move P) verbose g e) = None"
    using start_loop_ok [OF m, of sz "move P" verbose e] by auto
  show "\<exists>scores. fst (start sz P verbose g e) = Inr scores"
    using start_ok [OF m, of sz P verbose e] by auto
next
  have "counter_inv (Game_init rb)"
    by (simp add: counter_inv_def Game_init_def)
  then show "list_all2 (\<lambda>x r. r = None \<or> r = Some ValueError \<and> (\<exists>p. x = Add_player p))
     xs (fst (run_ops sz P xs (Game_init rb, e)))"
    by (rule run_ops_errors)
qed

text \<open>The theorem at a deck of six cards and a board of side two, after one draw.\<close>

theorem start_never_raises_witness:
  "(0::int) \<le> moves_played \<lparr>available_cards = [7, 2, 11, 5, 9, 3], moves_played = 1, players = [0, 1]\<rparr> \<and>
   \<not> finished 2 \<lparr>available_cards = [7, 2, 11, 5, 9, 3], moves_played = 1, players = [0, 1]\<rparr> \<and>
   fst (take_next_card 2
     \<lparr>available_cards = [7, 2, 11, 5, 9, 3], moves_played = 1, players = [0, 1]\<rparr>) = Inr (Some 2) \<and>
   fst (start_loop 2 (move sample_collab) True
     \<lparr>available_cards = [7, 2, 11, 5, 9, 3], moves_played = 1, players = [0, 1]\<rparr> sample_env) = None"
  using start_never_raises
    [of "\<lparr>available_cards = [7, 2, 11, 5, 9, 3], moves_played = 1, players = [0, 1]\<rparr>"
        2 sample_collab True sample_env "[]" sample_source]
  by (simp add: finished_def)

text \<open>
  Claim C9. In a new game in which no player was registered, \<open>start\<close> returns the empty
  list of scores, for every board size and with or without tracing.
\<close>

theorem start_without_players:
  "fst (start sz P verbose (Game_init rb) e) = Inr []"
  using start_ok [of "Game_init rb" sz P verbose e]
  by (auto simp: Game_init_simps)

text \<open>
  Claim C10. In a finished game \<open>start\<close> returns one score per registered player, computed
  from the players as they are, and changes nothing: the game (counter and roster
  included), the player objects and the record of prints and \<open>move\<close> calls are as
  before. After a run of \<open>start\<close> the game is finished, so a second call returns what the
  first one returned and leaves the state that the first one left.
\<close>

theorem start_when_finished:
  "(finished sz g \<longrightarrow>
      start sz P verbose g e =
        (Inr (map (\<lambda>player. evaluate P (get_board P (heap e player))) (players g)), g, e)) \<and>
   (0 \<le> moves_played g \<longrightarrow>
      finished sz (fst (snd (start sz P verbose g e))) \<and>
      start sz P verbose' (fst (snd (start sz P verbose g e))) (snd (snd (start sz P verbose g e))) =
        start sz P verbose g e)"
proof (intro conjI impI)
  assume "finished sz g"
  then show "start sz P verbose g e =
        (Inr (map (\<lambda>player. evaluate P (get_board P (heap e player))) (players g)), g, e)"
    by (rule start_finished)
next
  assume m: "0 \<le> moves_played g"
  obtain e' where s: "start sz P verbose g e =
           (Inr (map (\<lambda>player. evaluate P (get_board P (heap e' player))) (players g)),
            g\<lparr>moves_played := max (moves_played g) (threshold sz g)\<rparr>, e')"
    using start_ok [OF m, of sz P verbose e] by blast
  have f: "finished sz (g\<lparr>moves_played := max (moves_played g) (threshold sz g)\<rparr>)"
    by (simp add: finished_threshold)
  show "finished sz (fst (snd (start sz P verbose g e)))"
    using s f by simp
  show "start sz P verbose' (fst (snd (start sz P verbose g e))) (snd (snd (start sz P verbose g e))) =
        start sz P verbose g e"
    using s start_finished [OF f, of P verbose' e'] by simp
qed

text \<open>
  The theorem at a deck of six cards and a board of side two: called after four draws, and
  called in a new game.
\<close>

theorem start_when_finished_witness:
  "finished 2 \<lparr>available_cards = [7, 2, 11, 5, 9, 3], moves_played = 4, players = [0, 1]\<rparr> \<and>
   fst (start 2 sample_collab True
     \<lparr>available_cards = [7, 2, 11, 5, 9, 3], moves_played = 4, players = [0, 1]\<rparr> sample_env) =
     Inr [0, 0] \<and>
   events (snd (snd (start 2 sample_collab True
     \<lparr>available_cards = [7, 2, 11, 5, 9, 3], moves_played = 4, players = [0, 1]\<rparr> sample_env))) = [] \<and>
   (0::int) \<le> moves_played \<lparr>available_cards = [7, 2, 11, 5, 9, 3], moves_played = 0, players = [0, 1]\<rparr> \<and>
   finished 2 (fst (snd (start 2 sample_collab True
     \<lparr>available_cards = [7, 2, 11, 5, 9, 3], moves_played = 0, players = [0, 1]\<rparr> sample_env)))"
  using start_when_finished
    [of 2 "\<lparr>available_cards = [7, 2, 11, 5, 9, 3], moves_played = 4, players = [0, 1]\<rparr>"
        sample_collab True sample_env True]
    start_when_finished
    [of 2 "\<lparr>available_cards = [7, 2, 11, 5, 9, 3], moves_played = 0, players = [0, 1]\<rparr>"
        sample_collab True sample_env True]
  by (simp add: finished_def sample_collab_def sample_env_def)

subsection \<open>Invariants of the deck and of the counter\<close>

text \<open>
  Claim C6. Whatever the random source, the deck of a new game is a permutation of the 52
  cards that hold each rank from \<open>1\<close> to \<open>13\<close> four times and nothing else. No method
  (\<open>take_next_card\<close>, \<open>add_player\<close>, \<open>finished\<close>, \<open>start\<close>, \<open>__str__\<close>) and no
  sequence of calls changes the deck, so the multiset of its cards stays the same.
\<close>

theorem deck_is_fixed_permutation:
  "mset (available_cards (Game_init rb)) = mset fresh_deck \<and>
   length (available_cards (Game_init rb)) = 52 \<and>
   count (mset (available_cards (Game_init rb))) v = (if 1 \<le> v \<and> v \<le> 13 then 4 else 0) \<and>
   available_cards (fst (snd (exec sz P x (g, e)))) = available_cards g \<and>
   available_cards (fst (snd (run_ops sz P xs (g, e)))) = available_cards g \<and>
   count (mset (available_cards (fst (snd (run_ops sz P xs (Game_init rb, e)))))) v =
     (if 1 \<le> v \<and> v \<le> 13 then 4 else 0)"
proof -
  have d: "available_cards (Game_init rb) = shuffle rb fresh_deck"
    by (simp add: Game_init_def)
  have 1: "mset (available_cards (Game_init rb)) = mset fresh_deck"
    using shuffle_perm [of rb fresh_deck] d by simp
  have 2: "length (available_cards (Game_init rb)) = 52"
    using shuffle_perm [of rb fresh_deck] d length_fresh_deck by simp
  have 3: "count (mset (available_cards (Game_init rb))) v = (if 1 \<le> v \<and> v \<le> 13 then 4 else 0)"
    using 1 count_fresh_deck [of v] by simp
  have 4: "available_cards (fst (snd (exec sz P x (g, e)))) = available_cards g"
    using exec_frame [of sz P x g e] by simp
  have 5: "available_cards (fst (snd (run_ops sz P xs (g, e)))) = available_cards g" for g
    using run_ops_frame [of sz P xs g e] by simp
  show ?thesis
    using 1 2 3 4 5 [of g] 5 [of "Game_init rb"] by simp
qed

text \<open>The theorem for the rank seven, in a game that is shuffled, drawn from and played.\<close>

theorem deck_is_fixed_permutation_witness:
  "count (mset (available_cards (Game_init sample_source))) 7 = 4 \<and>
   count (mset (available_cards (fst (snd (run_ops 5 sample_collab
      [Add_player 0, Take_next_card, Start True, Str] (Game_init sample_source, sample_env)))))) 7 = 4"
proof -
  note t = deck_is_fixed_permutation
    [of sample_source 7 5 sample_collab Str "Game_init sample_source" sample_env
        "[Add_player 0, Take_next_card, Start True, Str]"]
  have a: "count (mset (available_cards (Game_init sample_source))) 7 =
      (if (1::int) \<le> 7 \<and> (7::int) \<le> 13 then 4 else 0)"
    using t by blast
  have b: "count (mset (available_cards (fst (snd (run_ops 5 sample_collab
      [Add_player 0, Take_next_card, Start True, Str] (Game_init sample_source, sample_env)))))) 7 =
      (if (1::int) \<le> 7 \<and> (7::int) \<le> 13 then 4 else 0)"
    using t by blast
  show ?thesis
    unfolding a b by simp
qed

text \<open>
  Claim C7. The counter of a new game is \<open>0\<close>. Every method keeps the counter between
  \<open>0\<close> and the length of the deck if it was there before, and so the counter is there
  after every sequence of calls on a new game.
\<close>

theorem counter_within_deck:
  "moves_played (Game_init rb) = 0 \<and>
   (0 \<le> moves_played g \<and> moves_played g \<le> int (length (available_cards g)) \<longrightarrow>
      0 \<le> moves_played (fst (snd (exec sz P x (g, e)))) \<and>
      moves_played (fst (snd (exec sz P x (g, e))))
        \<le> int (length (available_cards (fst (snd (exec sz P x (g, e))))))) \<and>
   0 \<le> moves_played (fst (snd (run_ops sz P xs (Game_init rb, e)))) \<and>
   moves_played (fst (snd (run_ops sz P xs (Game_init rb, e))))
     \<le> int (length (available_cards (fst (snd (run_ops sz P xs (Game_init rb, e))))))"
proof -
  have i: "counter_inv (Game_init rb)"
    by (simp add: counter_inv_def Game_init_def)
  have "counter_inv (fst (snd (run_ops sz P xs (Game_init rb, e))))"
    using run_ops_inv [OF i, of sz P xs e] by simp
  moreover have "counter_inv g \<Longrightarrow> counter_inv (fst (snd (exec sz P x (g, e))))"
    using exec_inv [of g sz P x e] by simp
  ultimately show ?thesis
    by (simp add: counter_inv_def Game_init_def)
qed

text \<open>The theorem at a deck of six cards and a board of side two: the fourth draw.\<close>

theorem counter_within_deck_witness:
  "(0::int) \<le> moves_played \<lparr>available_cards = [7, 2, 11, 5, 9, 3], moves_played = 3, players = [0, 1]\<rparr> \<and>
   moves_played \<lparr>available_cards = [7, 2, 11, 5, 9, 3], moves_played = 3, players = [0, 1]\<rparr>
     \<le> int (length (available_cards
          \<lparr>available_cards = [7, 2, 11, 5, 9, 3], moves_played = 3, players = [0, 1]\<rparr>)) \<and>
   moves_played (fst (snd (exec 2 sample_collab Take_next_card
     (\<lparr>available_cards = [7, 2, 11, 5, 9, 3], moves_played = 3, players = [0, 1]\<rparr>, sample_env)))) = 4 \<and>
   (4::int) \<le> int (length (available_cards (fst (snd (exec 2 sample_collab Take_next_card
     (\<lparr>available_cards = [7, 2, 11, 5, 9, 3], moves_played = 3, players = [0, 1]\<rparr>, sample_env))))))"
  using counter_within_deck
    [of sample_source "\<lparr>available_cards = [7, 2, 11, 5, 9, 3], moves_played = 3, players = [0, 1]\<rparr>"
        2 sample_collab Take_next_card sample_env "[]"]
  by (simp add: take_next_card_def finished_def py_index_def)

end
